theory Spec2Isabelle
  imports Main "HOL-Library.Word"
begin

section \<open>Strings, bytes and the library functions the adapter calls\<close>

text \<open>
  Go strings are byte sequences; they are modelled as \<open>string\<close> (a list of 8-bit
  characters). Slices are lists; a nil slice is the empty list, except for the one field
  (\<open>entries\<close>) that the code compares with nil, which is an option.
\<close>

type_synonym byte = "8 word"

text \<open>\<open>strings.HasPrefix\<close>, \<open>strings.HasSuffix\<close>, \<open>strings.TrimPrefix\<close>, \<open>strings.TrimSuffix\<close>.\<close>

definition HasPrefix :: "string \<Rightarrow> string \<Rightarrow> bool" where
  "HasPrefix s p = (length p \<le> length s \<and> take (length p) s = p)"

definition HasSuffix :: "string \<Rightarrow> string \<Rightarrow> bool" where
  "HasSuffix s x = (length x \<le> length s \<and> drop (length s - length x) s = x)"

definition TrimPrefix :: "string \<Rightarrow> string \<Rightarrow> string" where
  "TrimPrefix s p = (if HasPrefix s p then drop (length p) s else s)"

definition TrimSuffix :: "string \<Rightarrow> string \<Rightarrow> string" where
  "TrimSuffix s x = (if HasSuffix s x then take (length s - length x) s else s)"

subsection \<open>\<open>path.Clean\<close>\<close>

text \<open>
  The standard library's \<open>path.Clean\<close>, byte by byte. \<open>rest\<close> is the unread part of the
  path (\<open>path[r:]\<close>), \<open>out\<close> the output buffer up to its write index (\<open>out.w\<close> is
  \<open>length out\<close>), \<open>dotdot\<close> the index below which a \<open>..\<close> element may not backtrack.
  As in the source, the byte after the current one (\<open>hd cs\<close>, that is \<open>path[r+1]\<close>) is
  read only when there is one: the test \<open>cs = []\<close> (\<open>r+1 == n\<close>) comes first, and the
  \<open>..\<close> case is reached with a dot in front only when the \<open>.\<close> case has failed.
\<close>

text \<open>The inner loop of the \<open>..\<close> case: \<open>for out.w > dotdot && out.index(out.w) != '/' { out.w-- }\<close>.\<close>

fun backtrack :: "string \<Rightarrow> nat \<Rightarrow> nat \<Rightarrow> nat" where
  "backtrack out dotdot w =
     (if w > dotdot \<and> out ! w \<noteq> CHR ''/'' then backtrack out dotdot (w - 1) else w)"

declare backtrack.simps [simp del]

text \<open>
  The \<open>..\<close> case of the switch: backtrack over the last element of the buffer when there
  is one above \<open>dotdot\<close>; otherwise, on a path that is not rooted, append \<open>..\<close> and raise
  \<open>dotdot\<close> to the end of the buffer; otherwise nothing. The result is the buffer and the
  new \<open>dotdot\<close>.
\<close>

definition dotdot_elem :: "bool \<Rightarrow> string \<Rightarrow> nat \<Rightarrow> string \<times> nat" where
  "dotdot_elem rooted out dotdot =
     (if length out > dotdot then
        (take (backtrack out dotdot (length out - 1)) out, dotdot)
      else if \<not> rooted then
        (let out' = (if length out > 0 then out @ ''/'' else out) @ ''..''
         in (out', length out'))
      else (out, dotdot))"

text \<open>The default case: a separating slash if the buffer needs one, then the element.\<close>

definition real_elem :: "bool \<Rightarrow> string \<Rightarrow> string \<Rightarrow> string" where
  "real_elem rooted out elem =
     (if rooted \<and> length out \<noteq> 1 \<or> \<not> rooted \<and> length out \<noteq> 0 then out @ ''/'' else out)
     @ elem"

function clean_loop :: "bool \<Rightarrow> string \<Rightarrow> string \<Rightarrow> nat \<Rightarrow> string" where
  "clean_loop rooted rest out dotdot =
     (case rest of
        [] \<Rightarrow> out
      | c # cs \<Rightarrow>
          if c = CHR ''/'' then clean_loop rooted cs out dotdot
          else if c = CHR ''.'' \<and> (cs = [] \<or> hd cs = CHR ''/'') then
            clean_loop rooted cs out dotdot
          else if c = CHR ''.'' \<and> hd cs = CHR ''.'' \<and> (tl cs = [] \<or> hd (tl cs) = CHR ''/'') then
            clean_loop rooted (tl cs)
              (fst (dotdot_elem rooted out dotdot)) (snd (dotdot_elem rooted out dotdot))
          else
            clean_loop rooted (dropWhile (\<lambda>x. x \<noteq> CHR ''/'') rest)
              (real_elem rooted out (takeWhile (\<lambda>x. x \<noteq> CHR ''/'') rest)) dotdot)"
  by pat_completeness auto
termination
proof (relation "measure (\<lambda>(rooted, rest, out, dotdot). length rest)", goal_cases)
  case (5 rooted rest out dotdot c cs)
  have "length (dropWhile (\<lambda>x. x \<noteq> CHR ''/'') cs) \<le> length cs"
    by (rule length_dropWhile_le)
  with 5 show ?case by simp
qed simp_all

declare clean_loop.simps [simp del]

definition Clean :: "string \<Rightarrow> string" where
  "Clean path =
     (if path = [] then ''.''
      else let rooted = (hd path = CHR ''/'');
               out = (if rooted then clean_loop rooted (tl path) ''/'' 1
                      else clean_loop rooted path [] 0)
           in if length out = 0 then ''.'' else out)"

text \<open>
  The invariant of the loop that keeps a trailing slash out of the result. A write index
  \<open>w\<close> is \<open>good\<close> when the buffer cut at \<open>w\<close> is empty, is the root, or does not end
  with a slash. The invariant: the end of the buffer and \<open>dotdot\<close> are good, and so is
  every index above \<open>dotdot\<close> that holds a slash (the indices where backtracking stops).
\<close>

definition good :: "string \<Rightarrow> nat \<Rightarrow> bool" where
  "good out w = (w = 0 \<or> take w out = ''/'' \<or> out ! (w - 1) \<noteq> CHR ''/'')"

definition clean_inv :: "string \<Rightarrow> nat \<Rightarrow> bool" where
  "clean_inv out dotdot =
     (dotdot \<le> length out \<and> good out (length out) \<and> good out dotdot \<and>
      (\<forall>w. dotdot < w \<and> w < length out \<and> out ! w = CHR ''/'' \<longrightarrow> good out w))"

text \<open>
  The invariant of the loop that bounds the length of the result by the length \<open>n\<close> of the
  path: the buffer and the unread part together are no longer than the path, and strictly
  shorter at the start of an element that will be written after a separating slash.
\<close>

definition needs_slash :: "bool \<Rightarrow> string \<Rightarrow> bool" where
  "needs_slash rooted out = (rooted \<and> length out \<noteq> 1 \<or> \<not> rooted \<and> length out \<noteq> 0)"

definition len_inv :: "nat \<Rightarrow> bool \<Rightarrow> string \<Rightarrow> string \<Rightarrow> nat \<Rightarrow> bool" where
  "len_inv n rooted rest out dotdot =
     (length out + length rest \<le> n \<and>
      (rest \<noteq> [] \<and> hd rest \<noteq> CHR ''/'' \<and> needs_slash rooted out \<longrightarrow> length out + length rest < n) \<and>
      dotdot \<le> length out \<and> (rooted \<longrightarrow> 1 \<le> dotdot))"

subsection \<open>\<open>path.Base\<close>, \<open>path.Split\<close>, \<open>path.Dir\<close>, \<open>path.Join\<close>\<close>

text \<open>\<open>for len(path) > 0 && path[len(path)-1] == '/' { path = path[0 : len(path)-1] }\<close>\<close>

definition strip_trailing_slashes :: "string \<Rightarrow> string" where
  "strip_trailing_slashes p = rev (dropWhile (\<lambda>x. x = CHR ''/'') (rev p))"

text \<open>\<open>path[lastSlash(path)+1:]\<close>: everything after the last slash, the whole string when there is none.\<close>

definition after_last_slash :: "string \<Rightarrow> string" where
  "after_last_slash p = rev (takeWhile (\<lambda>x. x \<noteq> CHR ''/'') (rev p))"

text \<open>\<open>path[:lastSlash(path)+1]\<close>: everything up to and including the last slash.\<close>

definition upto_last_slash :: "string \<Rightarrow> string" where
  "upto_last_slash p = rev (dropWhile (\<lambda>x. x \<noteq> CHR ''/'') (rev p))"

definition Base :: "string \<Rightarrow> string" where
  "Base path =
     (if path = [] then ''.''
      else let p = after_last_slash (strip_trailing_slashes path)
           in if p = [] then ''/'' else p)"

definition Split :: "string \<Rightarrow> string \<times> string" where
  "Split path = (upto_last_slash path, after_last_slash path)"

definition Dir :: "string \<Rightarrow> string" where
  "Dir path = Clean (fst (Split path))"

text \<open>The buffer loop of \<open>path.Join\<close>: empty elements are skipped while the buffer is empty.\<close>

fun join_buf :: "string \<Rightarrow> string list \<Rightarrow> string" where
  "join_buf buf [] = buf"
| "join_buf buf (e # es) =
     (if length buf > 0 \<or> e \<noteq> [] then
        join_buf ((if length buf > 0 then buf @ ''/'' else buf) @ e) es
      else join_buf buf es)"

definition Join :: "string list \<Rightarrow> string" where
  "Join elem = (if sum_list (map length elem) = 0 then [] else Clean (join_buf [] elem))"

section \<open>The archive and the index\<close>

text \<open>
  The error values the adapter returns: \<open>io.EOF\<close>, \<open>os.ErrInvalid\<close>, \<open>os.ErrNotExist\<close>,
  the two errors of \<open>bytes.Reader.Seek\<close>, and whatever opening or decompressing an archive
  member reports.
\<close>

datatype error =
    EOF
  | ErrInvalid
  | ErrNotExist
  | ErrSeekInvalidWhence
  | ErrSeekNegativePosition
  | ErrArchive string

text \<open>
  \<open>time.Time\<close> as nanoseconds since the zero instant; \<open>time.Time{}\<close> is \<open>zero_time\<close>.
\<close>

type_synonym time = int

definition zero_time :: time where
  "zero_time = 0"

text \<open>
  A member of the archive (\<open>*zip.File\<close>), as far as the adapter looks at it: its name, what
  \<open>f.FileInfo().IsDir()\<close> answers, the size and time of its header, and the outcome of
  \<open>f.Open()\<close> followed by \<open>io.Copy\<close> into a buffer (the decompressed bytes, or the error of
  either step).
\<close>

record zip_File =
  Name :: string
  IsDir :: bool
  UncompressedSize64 :: "64 word"
  Modified :: time
  Contents :: "error + byte list"

record zipFileInfo =
  fi_name :: string
  fi_isDir :: bool
  fi_modTime :: time
  fi_size :: int

text \<open>
  An \<open>os.FileInfo\<close> is either the header information of an archive member
  (\<open>f.FileHeader.FileInfo()\<close>) or a synthesized \<open>zipFileInfo\<close>.
\<close>

datatype FileInfo = HeaderFileInfo zip_File | SynthFileInfo zipFileInfo

record zipFS =
  files :: "string \<rightharpoonup> zip_File"
  dirs :: "string \<rightharpoonup> string list"

text \<open>\<open>append(z.dirs[key], v)\<close>: a missing key reads as the nil slice.\<close>

definition dirs_append :: "(string \<rightharpoonup> string list) \<Rightarrow> string \<Rightarrow> string \<Rightarrow> (string \<rightharpoonup> string list)" where
  "dirs_append d key v = d(key \<mapsto> (case d key of None \<Rightarrow> [] | Some xs \<Rightarrow> xs) @ [v])"

text \<open>
  The inner \<open>for\<close> loop of \<open>newZipFS\<close>, which walks from the parent directory of a file up
  to the root. Nothing in its text bounds the number of rounds, so it is a partial function:
  \<open>None\<close> stands for a walk that never reaches the root. That it always reaches the root
  is lemma \<open>populate_total\<close>.
\<close>

definition dir_key :: "string \<Rightarrow> string" where
  "dir_key dir = (if dir \<noteq> [] then TrimSuffix (TrimPrefix dir ''/'') ''/'' @ ''/'' else [])"

definition dot_to_empty :: "string \<Rightarrow> string" where
  "dot_to_empty dir = (if dir = ''.'' then [] else dir)"

partial_function (option) populate ::
  "string \<Rightarrow> string \<Rightarrow> (string \<rightharpoonup> string list) \<Rightarrow> (string \<rightharpoonup> string list) option" where
  [code]: "populate name dir d =
     (let d' = dirs_append d (dir_key dir) (Base name)
      in if dir = [] \<or> dir = ''.'' \<or> dir = ''/'' then Some d'
         else populate name (dot_to_empty (Dir dir)) d')"

text \<open>The path normalisation at the head of the outer loop.\<close>

definition entry_name :: "zip_File \<Rightarrow> string" where
  "entry_name f = TrimPrefix (TrimPrefix (Clean (Name f)) ''./'') ''/''"

text \<open>One round of the outer loop of \<open>newZipFS\<close>.\<close>

definition add_entry :: "zipFS \<Rightarrow> zip_File \<Rightarrow> zipFS option" where
  "add_entry z f =
     (let name = entry_name f
      in if IsDir f then
           Some (z\<lparr>dirs := (dirs z)(TrimSuffix name ''/'' @ ''/'' \<mapsto> [])\<rparr>)
         else
           (let z1 = z\<lparr>files := (files z)(name \<mapsto> f)\<rparr>
            in case populate name (dot_to_empty (Dir name)) (dirs z1) of
                 None \<Rightarrow> None
               | Some d \<Rightarrow> Some (z1\<lparr>dirs := d\<rparr>)))"

fun add_entries :: "zipFS \<Rightarrow> zip_File list \<Rightarrow> zipFS option" where
  "add_entries z [] = Some z"
| "add_entries z (f # fs) =
     (case add_entry z f of None \<Rightarrow> None | Some z' \<Rightarrow> add_entries z' fs)"

definition newZipFS :: "zip_File list \<Rightarrow> zipFS option" where
  "newZipFS r = add_entries \<lparr>files = Map.empty, dirs = Map.empty\<rparr> r"

section \<open>Handles\<close>

text \<open>A \<open>bytes.Reader\<close>: the slice it reads and its position, an \<open>int64\<close>.\<close>

record Reader =
  rd_s :: "byte list"
  rd_i :: int

record zipHTTPFile =
  isDir :: bool
  name :: string
  data :: "byte list"
  rdr :: "Reader option"
  fi :: "FileInfo option"
  entries :: "FileInfo list option"

definition dirEntry :: "zipFS \<Rightarrow> string \<Rightarrow> string \<Rightarrow> FileInfo" where
  "dirEntry z dirKey n =
     (let full = TrimPrefix (Join [TrimSuffix dirKey ''/'', n]) ''/''
      in case files z full of
           Some f \<Rightarrow> HeaderFileInfo f
         | None \<Rightarrow> SynthFileInfo \<lparr>fi_name = n, fi_isDir = True, fi_modTime = zero_time, fi_size = 0\<rparr>)"

definition dirEntries :: "zipFS \<Rightarrow> string \<Rightarrow> FileInfo list" where
  "dirEntries z dirKey =
     (case dirs z dirKey of None \<Rightarrow> [] | Some names \<Rightarrow> map (dirEntry z dirKey) names)"

definition dir_handle :: "zipFS \<Rightarrow> string \<Rightarrow> zipHTTPFile" where
  "dir_handle z dirKey =
     \<lparr>isDir = True, name = dirKey, data = [], rdr = None, fi = None,
      entries = Some (dirEntries z dirKey)\<rparr>"

text \<open>The normalisation at the head of \<open>Open\<close>.\<close>

definition clean_name :: "string \<Rightarrow> string" where
  "clean_name name0 = TrimPrefix (Clean name0) ''/''"

definition Open :: "zipFS \<Rightarrow> string \<Rightarrow> error + zipHTTPFile" where
  "Open z name0 =
     (let name = clean_name name0
      in if name = ''.'' \<or> name = [] then Inr (dir_handle z [])
         else if HasSuffix name ''/'' then Inr (dir_handle z (TrimSuffix name ''/'' @ ''/''))
         else case files z name of
                Some f \<Rightarrow>
                  (case Contents f of
                     Inl err \<Rightarrow> Inl err
                   | Inr buf \<Rightarrow>
                       Inr \<lparr>isDir = False, name = Base name, data = buf, rdr = None,
                            fi = Some (HeaderFileInfo f), entries = None\<rparr>)
              | None \<Rightarrow>
                  (let dirKey = TrimSuffix name ''/'' @ ''/''
                   in if dirs z dirKey \<noteq> None then Inr (dir_handle z dirKey)
                      else Inl ErrNotExist))"

subsection \<open>Metadata\<close>

text \<open>
  The methods of \<open>os.FileInfo\<close>. For a synthesized \<open>zipFileInfo\<close> they are the accessors of
  the source; for a header they are the archive library's: the base name of the member, the
  size and time of its header, its directory flag.
\<close>

fun FileInfo_Name :: "FileInfo \<Rightarrow> string" where
  "FileInfo_Name (SynthFileInfo i) = fi_name i"
| "FileInfo_Name (HeaderFileInfo f) = Base (Name f)"

fun FileInfo_Size :: "FileInfo \<Rightarrow> int" where
  "FileInfo_Size (SynthFileInfo i) = fi_size i"
| "FileInfo_Size (HeaderFileInfo f) = sint (UncompressedSize64 f)"

fun FileInfo_ModTime :: "FileInfo \<Rightarrow> time" where
  "FileInfo_ModTime (SynthFileInfo i) = fi_modTime i"
| "FileInfo_ModTime (HeaderFileInfo f) = Modified f"

fun FileInfo_IsDir :: "FileInfo \<Rightarrow> bool" where
  "FileInfo_IsDir (SynthFileInfo i) = fi_isDir i"
| "FileInfo_IsDir (HeaderFileInfo f) = IsDir f"

subsection \<open>\<open>bytes.Reader\<close>\<close>

text \<open>\<open>int64\<close> arithmetic wraps around.\<close>

definition int64 :: "int \<Rightarrow> int" where
  "int64 x = signed_take_bit 63 x"

definition NewReader :: "byte list \<Rightarrow> Reader" where
  "NewReader b = \<lparr>rd_s = b, rd_i = 0\<rparr>"

text \<open>
  \<open>Reader.Read(p)\<close>: the caller's buffer \<open>p\<close> enters by its length \<open>m\<close> only; the result
  carries the bytes copied into it (the returned count is their number). The position is
  never negative (\<open>NewReader\<close> starts at 0, \<open>Seek\<close> refuses a negative position), so the
  slice expression \<open>r.s[r.i:]\<close> is always in range below the end.
\<close>

definition Reader_Read :: "nat \<Rightarrow> Reader \<Rightarrow> byte list \<times> error option \<times> Reader" where
  "Reader_Read m r =
     (if rd_i r \<ge> int (length (rd_s r)) then ([], Some EOF, r)
      else let bs = take m (drop (nat (rd_i r)) (rd_s r))
           in (bs, None, r\<lparr>rd_i := int64 (rd_i r + int (length bs))\<rparr>))"

text \<open>\<open>io.SeekStart\<close>, \<open>io.SeekCurrent\<close>, \<open>io.SeekEnd\<close> are 0, 1, 2.\<close>

definition Reader_Seek :: "int \<Rightarrow> int \<Rightarrow> Reader \<Rightarrow> int \<times> error option \<times> Reader" where
  "Reader_Seek offset whence r =
     (if whence \<noteq> 0 \<and> whence \<noteq> 1 \<and> whence \<noteq> 2 then (0, Some ErrSeekInvalidWhence, r)
      else let abs = (if whence = 0 then offset
                      else if whence = 1 then int64 (rd_i r + offset)
                      else int64 (int (length (rd_s r)) + offset))
           in if abs < 0 then (0, Some ErrSeekNegativePosition, r)
              else (abs, None, r\<lparr>rd_i := abs\<rparr>))"

subsection \<open>The methods of \<open>zipHTTPFile\<close>\<close>

text \<open>\<open>if f.rdr == nil { f.rdr = bytes.NewReader(f.data) }\<close>\<close>

definition the_rdr :: "zipHTTPFile \<Rightarrow> Reader" where
  "the_rdr f = (case rdr f of None \<Rightarrow> NewReader (data f) | Some r \<Rightarrow> r)"

definition Close :: "zipHTTPFile \<Rightarrow> error option" where
  "Close f = None"

definition Read :: "nat \<Rightarrow> zipHTTPFile \<Rightarrow> byte list \<times> error option \<times> zipHTTPFile" where
  "Read m f =
     (if isDir f then ([], Some EOF, f)
      else case Reader_Read m (the_rdr f) of
             (bs, err, r') \<Rightarrow> (bs, err, f\<lparr>rdr := Some r'\<rparr>))"

definition Seek :: "int \<Rightarrow> int \<Rightarrow> zipHTTPFile \<Rightarrow> int \<times> error option \<times> zipHTTPFile" where
  "Seek offset whence f =
     (if isDir f then (0, Some EOF, f)
      else case Reader_Seek offset whence (the_rdr f) of
             (pos, err, r') \<Rightarrow> (pos, err, f\<lparr>rdr := Some r'\<rparr>))"

definition Readdir :: "int \<Rightarrow> zipHTTPFile \<Rightarrow> FileInfo list \<times> error option \<times> zipHTTPFile" where
  "Readdir count f =
     (if \<not> isDir f then ([], Some ErrInvalid, f)
      else case entries f of
             None \<Rightarrow> ([], None, f)
           | Some es \<Rightarrow>
               if count \<le> 0 \<or> count \<ge> int (length es) then (es, None, f)
               else (take (nat count) es, None, f\<lparr>entries := Some (drop (nat count) es)\<rparr>))"

definition Stat :: "zipHTTPFile \<Rightarrow> FileInfo \<times> error option" where
  "Stat f =
     (if isDir f then
        (SynthFileInfo \<lparr>fi_name = Base (TrimSuffix (name f) ''/''), fi_isDir = True,
                        fi_modTime = zero_time, fi_size = 0\<rparr>, None)
      else case fi f of
             Some i \<Rightarrow> (i, None)
           | None \<Rightarrow>
               (SynthFileInfo \<lparr>fi_name = name f, fi_isDir = False, fi_modTime = zero_time,
                               fi_size = int (length (data f))\<rparr>, None))"

subsection \<open>Callers' loops\<close>

text \<open>
  A caller that pages through a directory: \<open>Readdir(k)\<close> again and again, collecting the
  pages, until a call returns no entry. The first argument bounds the number of calls;
  \<open>None\<close> means that the directory was not exhausted within that many calls.
\<close>

fun readdir_pages :: "nat \<Rightarrow> int \<Rightarrow> zipHTTPFile \<Rightarrow> (error + FileInfo list) option" where
  "readdir_pages 0 k f = None"
| "readdir_pages (Suc n) k f =
     (case Readdir k f of
        (page, Some err, f') \<Rightarrow> Some (Inl err)
      | (page, None, f') \<Rightarrow>
          if page = [] then Some (Inr [])
          else (case readdir_pages n k f' of
                  None \<Rightarrow> None
                | Some (Inl err) \<Rightarrow> Some (Inl err)
                | Some (Inr rest) \<Rightarrow> Some (Inr (page @ rest))))"


subsection \<open>Example archives and handles\<close>

definition member_file :: "string \<Rightarrow> byte list \<Rightarrow> zip_File" where
  "member_file n b =
     \<lparr>Name = n, IsDir = False, UncompressedSize64 = word_of_nat (length b),
      Modified = zero_time, Contents = Inr b\<rparr>"

definition member_dir :: "string \<Rightarrow> zip_File" where
  "member_dir n =
     \<lparr>Name = n, IsDir = True, UncompressedSize64 = 0, Modified = zero_time, Contents = Inr []\<rparr>"

text \<open>A member whose content cannot be read back: decompression reports an error.\<close>

definition member_broken :: "string \<Rightarrow> zip_File" where
  "member_broken n =
     \<lparr>Name = n, IsDir = False, UncompressedSize64 = 3, Modified = zero_time,
      Contents = Inl (ErrArchive ''zip: checksum error'')\<rparr>"

definition empty_index :: zipFS where
  "empty_index = \<lparr>files = Map.empty, dirs = Map.empty\<rparr>"

definition synth_dir :: "string \<Rightarrow> FileInfo" where
  "synth_dir n = SynthFileInfo \<lparr>fi_name = n, fi_isDir = True, fi_modTime = zero_time, fi_size = 0\<rparr>"

definition listing_handle :: "string \<Rightarrow> FileInfo list \<Rightarrow> zipHTTPFile" where
  "listing_handle k es =
     \<lparr>isDir = True, name = k, data = [], rdr = None, fi = None, entries = Some es\<rparr>"

section \<open>Properties of \<open>path.Clean\<close>\<close>

lemma clean_loop_Nil [simp]: "clean_loop rooted [] out dotdot = out"
  by (simp add: clean_loop.simps)

lemma clean_loop_Cons:
  "clean_loop rooted (c # cs) out dotdot =
     (if c = CHR ''/'' then clean_loop rooted cs out dotdot
      else if c = CHR ''.'' \<and> (cs = [] \<or> hd cs = CHR ''/'') then
        clean_loop rooted cs out dotdot
      else if c = CHR ''.'' \<and> hd cs = CHR ''.'' \<and> (tl cs = [] \<or> hd (tl cs) = CHR ''/'') then
        clean_loop rooted (tl cs)
          (fst (dotdot_elem rooted out dotdot)) (snd (dotdot_elem rooted out dotdot))
      else
        clean_loop rooted (dropWhile (\<lambda>x. x \<noteq> CHR ''/'') cs)
          (real_elem rooted out (c # takeWhile (\<lambda>x. x \<noteq> CHR ''/'') cs)) dotdot)"
  by (subst clean_loop.simps) auto

lemma takeWhile_append_slash:
  "takeWhile (\<lambda>x. x \<noteq> CHR ''/'') (cs @ ''/'') = takeWhile (\<lambda>x. x \<noteq> CHR ''/'') cs"
  by (induction cs) simp_all

lemma dropWhile_append_slash:
  "dropWhile (\<lambda>x. x \<noteq> CHR ''/'') (cs @ ''/'') = dropWhile (\<lambda>x. x \<noteq> CHR ''/'') cs @ ''/''"
  by (induction cs) simp_all

lemma clean_loop_append_slash:
  "clean_loop rooted (rest @ ''/'') out dotdot = clean_loop rooted rest out dotdot"
proof (induction rooted rest out dotdot rule: clean_loop.induct)
  case (1 rooted rest out dotdot)
  show ?case
  proof (cases rest)
    case Nil
    then show ?thesis by (simp add: clean_loop_Cons)
  next
    case (Cons c cs)
    note rest = Cons
    show ?thesis
    proof (cases "c = CHR ''/''")
      case True
      then show ?thesis
        using "1.IH"(1) [OF rest] by (simp add: rest clean_loop_Cons)
    next
      case slash: False
      show ?thesis
      proof (cases "c = CHR ''.'' \<and> (cs = [] \<or> hd cs = CHR ''/'')")
        case True
        then show ?thesis
          using "1.IH"(2) [OF rest slash] slash
          by (cases cs) (simp_all add: rest clean_loop_Cons)
      next
        case dot: False
        show ?thesis
        proof (cases "c = CHR ''.'' \<and> hd cs = CHR ''.'' \<and> (tl cs = [] \<or> hd (tl cs) = CHR ''/'')")
          case True
          with dot obtain cs' where cs: "cs = CHR ''.'' # cs'"
            by (cases cs) auto
          from True cs have cs': "cs' = [] \<or> hd cs' = CHR ''/''" by simp
          have "clean_loop rooted (rest @ ''/'') out dotdot =
                clean_loop rooted (cs' @ ''/'')
                  (fst (dotdot_elem rooted out dotdot)) (snd (dotdot_elem rooted out dotdot))"
            using True cs' by (cases cs') (simp_all add: rest cs clean_loop_Cons)
          also have "\<dots> = clean_loop rooted cs'
                  (fst (dotdot_elem rooted out dotdot)) (snd (dotdot_elem rooted out dotdot))"
            using "1.IH"(3) [OF rest slash dot True] by (simp add: cs)
          also have "\<dots> = clean_loop rooted rest out dotdot"
            using True cs' by (simp add: rest cs clean_loop_Cons)
          finally show ?thesis .
        next
          case dotdot: False
          have "clean_loop rooted (rest @ ''/'') out dotdot =
                clean_loop rooted (dropWhile (\<lambda>x. x \<noteq> CHR ''/'') cs @ ''/'')
                  (real_elem rooted out (c # takeWhile (\<lambda>x. x \<noteq> CHR ''/'') cs)) dotdot"
            using slash dot dotdot
            by (cases cs; cases "tl cs")
               (auto simp add: rest clean_loop_Cons takeWhile_append_slash dropWhile_append_slash)
          also have "\<dots> = clean_loop rooted (dropWhile (\<lambda>x. x \<noteq> CHR ''/'') cs)
                  (real_elem rooted out (c # takeWhile (\<lambda>x. x \<noteq> CHR ''/'') cs)) dotdot"
            using "1.IH"(4) [OF rest slash dot dotdot] slash by (simp add: rest)
          also have "\<dots> = clean_loop rooted rest out dotdot"
            using slash dot dotdot by (auto simp add: rest clean_loop_Cons)
          finally show ?thesis .
        qed
      qed
    qed
  qed
qed

lemma Clean_append_slash:
  assumes "p \<noteq> []"
  shows "Clean (p @ ''/'') = Clean p"
proof -
  from assms obtain a list where p: "p = a # list"
    by (cases p) auto
  have "clean_loop r (a # list @ ''/'') out dd = clean_loop r (a # list) out dd" for r out dd
    using clean_loop_append_slash [of r "a # list" out dd] by simp
  then show ?thesis
    by (simp add: Clean_def Let_def p clean_loop_append_slash)
qed


lemma good_take: "w \<le> n \<Longrightarrow> good (take n out) w = good out w"
  by (cases w) (simp_all add: good_def min_def)

lemma good_append: "w \<le> length out \<Longrightarrow> good (out @ xs) w = good out w"
  by (cases w) (simp_all add: good_def nth_append)

lemma good_end:
  assumes "xs \<noteq> []" and "last xs \<noteq> CHR ''/''"
  shows "good (out @ xs) (length out + length xs)"
proof -
  have "(out @ xs) ! (length (out @ xs) - 1) = last (out @ xs)"
    using assms(1) last_conv_nth [of "out @ xs"] by simp
  then show ?thesis
    using assms by (simp add: good_def)
qed

lemma HasSuffix_slash: "HasSuffix s ''/'' \<longleftrightarrow> s \<noteq> [] \<and> last s = CHR ''/''"
  by (cases s rule: rev_cases) (auto simp: HasSuffix_def)

lemma backtrack_bounds:
  "dotdot \<le> w \<Longrightarrow>
     dotdot \<le> backtrack out dotdot w \<and> backtrack out dotdot w \<le> w \<and>
     (backtrack out dotdot w = dotdot \<or> out ! backtrack out dotdot w = CHR ''/'')"
proof (induction out dotdot w rule: backtrack.induct)
  case (1 out dotdot w)
  show ?case
  proof (cases "w > dotdot \<and> out ! w \<noteq> CHR ''/''")
    case True
    then have "dotdot \<le> w - 1" by linarith
    from "1.IH" [OF True this] True show ?thesis
      by (subst (1 2 3 4) backtrack.simps) auto
  next
    case False
    with "1.prems" show ?thesis
      by (subst (1 2 3 4) backtrack.simps) auto
  qed
qed

lemma clean_inv_dotdot_elem:
  assumes "clean_inv out dotdot"
  shows "clean_inv (fst (dotdot_elem rooted out dotdot)) (snd (dotdot_elem rooted out dotdot))"
proof (cases "length out > dotdot")
  case True
  define w where "w = backtrack out dotdot (length out - 1)"
  from True have "dotdot \<le> length out - 1" by simp
  from backtrack_bounds [OF this, of out] have
    w: "dotdot \<le> w" "w \<le> length out - 1" "w = dotdot \<or> out ! w = CHR ''/''"
    by (simp_all add: w_def)
  have wl: "w < length out"
    using w(2) True by linarith
  have gw: "good out w"
  proof (cases "w = dotdot")
    case True
    with assms show ?thesis by (simp add: clean_inv_def)
  next
    case False
    with w have "dotdot < w \<and> w < length out \<and> out ! w = CHR ''/''"
      using wl by simp
    with assms show ?thesis
      unfolding clean_inv_def by blast
  qed
  have "clean_inv (take w out) dotdot"
    unfolding clean_inv_def
  proof (intro conjI allI impI)
    show "dotdot \<le> length (take w out)" using w True by simp
    show "good (take w out) (length (take w out))"
      using wl gw by (simp add: good_take min_def)
    show "good (take w out) dotdot"
      using w assms by (simp add: good_take clean_inv_def)
    fix v assume "dotdot < v \<and> v < length (take w out) \<and> take w out ! v = CHR ''/''"
    then have v: "dotdot < v" "v < w" "v < length out" "out ! v = CHR ''/''"
      using wl by auto
    with assms have "good out v"
      unfolding clean_inv_def by blast
    with v show "good (take w out) v"
      by (simp add: good_take)
  qed
  then show ?thesis
    using True by (simp add: dotdot_elem_def w_def)
next
  case False
  show ?thesis
  proof (cases rooted)
    case True
    with False assms show ?thesis by (simp add: dotdot_elem_def)
  next
    case nr: False
    define out' where "out' = (if length out > 0 then out @ ''/'' else out) @ ''..''"
    have g: "good out' (length out')"
      by (simp add: out'_def good_def nth_append)
    have "clean_inv out' (length out')"
      unfolding clean_inv_def using g by auto
    then show ?thesis
      using False nr by (simp add: dotdot_elem_def out'_def Let_def)
  qed
qed

lemma clean_inv_real_elem:
  assumes "clean_inv out dotdot" and "elem \<noteq> []" and "CHR ''/'' \<notin> set elem"
  shows "clean_inv (real_elem rooted out elem) dotdot"
proof -
  have l: "last elem \<noteq> CHR ''/''"
    using assms(2,3) last_in_set by metis
  have a: "clean_inv (out @ elem) dotdot"
    unfolding clean_inv_def
  proof (intro conjI allI impI)
    show "dotdot \<le> length (out @ elem)" using assms(1) by (simp add: clean_inv_def)
    show "good (out @ elem) (length (out @ elem))"
      using good_end [OF assms(2) l, of out] by simp
    show "good (out @ elem) dotdot"
      using assms(1) by (simp add: good_append clean_inv_def)
    fix w assume w: "dotdot < w \<and> w < length (out @ elem) \<and> (out @ elem) ! w = CHR ''/''"
    then have "w < length out"
      using assms(3) by (metis nth_append nth_mem not_less add_diff_inverse_nat length_append nat_add_left_cancel_less)
    with w have "dotdot < w" "out ! w = CHR ''/''"
      by (simp_all add: nth_append)
    with assms(1) \<open>w < length out\<close> have "good out w"
      unfolding clean_inv_def by blast
    with \<open>w < length out\<close> show "good (out @ elem) w"
      by (simp add: good_append)
  qed
  have b: "clean_inv (out @ ''/'' @ elem) dotdot"
    unfolding clean_inv_def
  proof (intro conjI allI impI)
    show "dotdot \<le> length (out @ ''/'' @ elem)" using assms(1) by (simp add: clean_inv_def)
    show "good (out @ ''/'' @ elem) (length (out @ ''/'' @ elem))"
      using good_end [OF assms(2) l, of "out @ ''/''"] by simp
    show "good (out @ ''/'' @ elem) dotdot"
      using assms(1) by (simp add: good_append clean_inv_def)
    fix w assume w: "dotdot < w \<and> w < length (out @ ''/'' @ elem) \<and> (out @ ''/'' @ elem) ! w = CHR ''/''"
    have "w \<le> length out"
    proof (rule ccontr)
      assume "\<not> w \<le> length out"
      then have "(out @ ''/'' @ elem) ! w = elem ! (w - length out - 1)" and "w - length out - 1 < length elem"
        using w by (auto simp: nth_append nth_Cons')
      with w assms(3) show False by (metis nth_mem)
    qed
    then have wo: "good (out @ ''/'' @ elem) w = good out w"
      by (rule good_append)
    show "good (out @ ''/'' @ elem) w"
    proof (cases "w = length out")
      case True
      with assms(1) wo show ?thesis by (simp add: clean_inv_def)
    next
      case False
      with \<open>w \<le> length out\<close> have "w < length out" by simp
      moreover from this w have "dotdot < w" "out ! w = CHR ''/''"
        by (simp_all add: nth_append)
      ultimately have "good out w"
        using assms(1) unfolding clean_inv_def by blast
      with wo show ?thesis by simp
    qed
  qed
  show ?thesis
    using a b by (simp add: real_elem_def)
qed

lemma clean_loop_inv:
  "clean_inv out dotdot \<Longrightarrow> good (clean_loop rooted rest out dotdot) (length (clean_loop rooted rest out dotdot))"
proof (induction rooted rest out dotdot rule: clean_loop.induct)
  case (1 rooted rest out dotdot)
  show ?case
  proof (cases rest)
    case Nil
    with "1.prems" show ?thesis by (simp add: clean_inv_def)
  next
    case (Cons c cs)
    note rest = Cons
    show ?thesis
    proof (cases "c = CHR ''/''")
      case True
      then show ?thesis
        using "1.IH"(1) [OF rest True "1.prems"] by (simp add: rest clean_loop_Cons)
    next
      case slash: False
      show ?thesis
      proof (cases "c = CHR ''.'' \<and> (cs = [] \<or> hd cs = CHR ''/'')")
        case True
        then show ?thesis
          using "1.IH"(2) [OF rest slash True "1.prems"] slash by (simp add: rest clean_loop_Cons)
      next
        case dot: False
        show ?thesis
        proof (cases "c = CHR ''.'' \<and> hd cs = CHR ''.'' \<and> (tl cs = [] \<or> hd (tl cs) = CHR ''/'')")
          case True
          then show ?thesis
            using "1.IH"(3) [OF rest slash dot True clean_inv_dotdot_elem [OF "1.prems"]] slash dot
            by (simp add: rest clean_loop_Cons)
        next
          case dotdot: False
          have e: "takeWhile (\<lambda>x. x \<noteq> CHR ''/'') rest \<noteq> []"
            using slash by (simp add: rest)
          have n: "CHR ''/'' \<notin> set (takeWhile (\<lambda>x. x \<noteq> CHR ''/'') rest)"
            by (auto dest: set_takeWhileD)
          show ?thesis
            using "1.IH"(4) [OF rest slash dot dotdot clean_inv_real_elem [OF "1.prems" e n]]
              slash dot dotdot
            by (auto simp add: rest clean_loop_Cons)
        qed
      qed
    qed
  qed
qed

lemma Clean_no_trailing_slash: "Clean p \<noteq> [] \<and> (Clean p = ''/'' \<or> last (Clean p) \<noteq> CHR ''/'')"
proof (cases "p = []")
  case True
  then show ?thesis by (simp add: Clean_def)
next
  case False
  define rooted where "rooted = (hd p = CHR ''/'')"
  define out where "out = (if rooted then clean_loop rooted (tl p) ''/'' 1 else clean_loop rooted p [] 0)"
  have "clean_inv ''/'' 1" and "clean_inv [] 0"
    by (simp_all add: clean_inv_def good_def)
  then have g: "good out (length out)"
    by (simp add: out_def clean_loop_inv)
  have c: "Clean p = (if length out = 0 then ''.'' else out)"
    using False by (simp add: Clean_def Let_def out_def rooted_def)
  show ?thesis
  proof (cases "out = []")
    case True
    with c show ?thesis by simp
  next
    case False
    with g have "out = ''/'' \<or> last out \<noteq> CHR ''/''"
      by (simp add: good_def last_conv_nth)
    with False c show ?thesis by simp
  qed
qed

lemma clean_name_no_trailing_slash: "clean_name p = [] \<or> \<not> HasSuffix (clean_name p) ''/''"
proof -
  from Clean_no_trailing_slash [of p] have n: "Clean p \<noteq> []"
    and d: "Clean p = ''/'' \<or> last (Clean p) \<noteq> CHR ''/''" by simp_all
  show ?thesis
  proof (cases "Clean p = ''/''")
    case True
    then show ?thesis by (simp add: clean_name_def TrimPrefix_def HasPrefix_def)
  next
    case False
    with d have l: "last (Clean p) \<noteq> CHR ''/''" by simp
    obtain c cs where p: "Clean p = c # cs" using n by (cases "Clean p") auto
    show ?thesis
    proof (cases "clean_name p = []")
      case True
      then show ?thesis by simp
    next
      case ne: False
      have "last (clean_name p) = last (Clean p)"
        using ne by (auto simp add: clean_name_def TrimPrefix_def HasPrefix_def p split: if_splits)
      with l ne have "\<not> HasSuffix (clean_name p) ''/''"
        by (simp add: HasSuffix_slash)
      then show ?thesis by simp
    qed
  qed
qed

subsection \<open>The result is no longer than the path\<close>

lemma length_dotdot_elem:
  "length (fst (dotdot_elem rooted out dotdot)) \<le> length out + (if needs_slash rooted out then 3 else 2)"
  by (auto simp: dotdot_elem_def needs_slash_def Let_def)

lemma dotdot_elem_bounds:
  assumes "dotdot \<le> length out" and "rooted \<longrightarrow> 1 \<le> dotdot"
  shows "snd (dotdot_elem rooted out dotdot) \<le> length (fst (dotdot_elem rooted out dotdot)) \<and>
         (rooted \<longrightarrow> 1 \<le> snd (dotdot_elem rooted out dotdot))"
proof (cases "length out > dotdot")
  case True
  then have "dotdot \<le> length out - 1" by simp
  from backtrack_bounds [OF this, of out] True assms show ?thesis
    by (simp add: dotdot_elem_def)
next
  case False
  with assms show ?thesis
    by (simp add: dotdot_elem_def Let_def)
qed

lemma clean_loop_length:
  "len_inv n rooted rest out dotdot \<Longrightarrow> length (clean_loop rooted rest out dotdot) \<le> n"
proof (induction rooted rest out dotdot rule: clean_loop.induct)
  case (1 rooted rest out dotdot)
  show ?case
  proof (cases rest)
    case Nil
    with "1.prems" show ?thesis by (simp add: len_inv_def)
  next
    case (Cons c cs)
    note rest = Cons
    show ?thesis
    proof (cases "c = CHR ''/''")
      case True
      have "len_inv n rooted cs out dotdot"
        using "1.prems" by (auto simp: len_inv_def rest)
      then show ?thesis
        using "1.IH"(1) [OF rest True] True by (simp add: rest clean_loop_Cons)
    next
      case slash: False
      show ?thesis
      proof (cases "c = CHR ''.'' \<and> (cs = [] \<or> hd cs = CHR ''/'')")
        case True
        have "len_inv n rooted cs out dotdot"
          using "1.prems" True by (auto simp: len_inv_def rest)
        then show ?thesis
          using "1.IH"(2) [OF rest slash True] True slash by (simp add: rest clean_loop_Cons)
      next
        case dot: False
        show ?thesis
        proof (cases "c = CHR ''.'' \<and> hd cs = CHR ''.'' \<and> (tl cs = [] \<or> hd (tl cs) = CHR ''/'')")
          case True
          with dot obtain cs' where cs: "cs = CHR ''.'' # cs'"
            by (cases cs) auto
          from True cs have cs': "cs' = [] \<or> hd cs' = CHR ''/''" by simp
          have b: "snd (dotdot_elem rooted out dotdot) \<le> length (fst (dotdot_elem rooted out dotdot)) \<and>
                (rooted \<longrightarrow> 1 \<le> snd (dotdot_elem rooted out dotdot))"
            using "1.prems" by (intro dotdot_elem_bounds) (simp_all add: len_inv_def)
          have "length (fst (dotdot_elem rooted out dotdot)) + length cs' \<le> n"
            using "1.prems" length_dotdot_elem [of rooted out dotdot] slash
            by (auto simp: len_inv_def rest cs split: if_splits)
          with b cs' have "len_inv n rooted cs' (fst (dotdot_elem rooted out dotdot)) (snd (dotdot_elem rooted out dotdot))"
            by (auto simp: len_inv_def)
          then show ?thesis
            using "1.IH"(3) [OF rest slash dot True] True slash dot by (simp add: rest cs clean_loop_Cons)
        next
          case dotdot: False
          let ?e = "takeWhile (\<lambda>x. x \<noteq> CHR ''/'') rest"
          let ?r = "dropWhile (\<lambda>x. x \<noteq> CHR ''/'') rest"
          have l: "length ?e + length ?r = length rest"
            by (metis length_append takeWhile_dropWhile_id)
          have h: "?r = [] \<or> hd ?r = CHR ''/''"
            using hd_dropWhile [of "\<lambda>x. x \<noteq> CHR ''/''" rest] by auto
          have "length (real_elem rooted out ?e) + length ?r \<le> n"
            using "1.prems" l slash by (auto simp: len_inv_def real_elem_def needs_slash_def rest)
          moreover have "dotdot \<le> length (real_elem rooted out ?e)"
            using "1.prems" by (auto simp: len_inv_def real_elem_def)
          ultimately have "len_inv n rooted ?r (real_elem rooted out ?e) dotdot"
            using h "1.prems" by (auto simp: len_inv_def)
          then show ?thesis
            using "1.IH"(4) [OF rest slash dot dotdot] slash dot dotdot
            by (auto simp add: rest clean_loop_Cons)
        qed
      qed
    qed
  qed
qed

lemma length_Clean: "p \<noteq> [] \<Longrightarrow> length (Clean p) \<le> length p"
proof -
  assume p: "p \<noteq> []"
  then obtain c cs where pc: "p = c # cs" by (cases p) auto
  have a: "len_inv (length p) True (tl p) ''/'' 1"
    using p by (simp add: len_inv_def needs_slash_def)
  have b: "len_inv (length p) False p [] 0"
    by (simp add: len_inv_def needs_slash_def)
  show ?thesis
    using clean_loop_length [OF a] clean_loop_length [OF b] p
    by (auto simp: Clean_def Let_def pc)
qed

lemma upto_last_slash_cases:
  "upto_last_slash p = [] \<or> (\<exists>v. upto_last_slash p = v @ ''/'')"
proof (cases "dropWhile (\<lambda>x. x \<noteq> CHR ''/'') (rev p)")
  case Nil
  then show ?thesis by (simp add: upto_last_slash_def)
next
  case (Cons a as)
  with hd_dropWhile [of "\<lambda>x. x \<noteq> CHR ''/''" "rev p"] have "a = CHR ''/''" by auto
  with Cons show ?thesis by (simp add: upto_last_slash_def)
qed

lemma length_upto_last_slash: "length (upto_last_slash p) \<le> length p"
  using length_dropWhile_le [of "\<lambda>x. x \<noteq> CHR ''/''" "rev p"] by (simp add: upto_last_slash_def)

lemma upto_last_slash_hd: "upto_last_slash p = ''/'' \<Longrightarrow> p \<noteq> ''/'' \<Longrightarrow> 1 < length p"
  using length_upto_last_slash [of p]
  by (cases p; cases "tl p") (auto simp: upto_last_slash_def)

lemma length_Dir:
  assumes "dir \<noteq> []" and "dir \<noteq> ''/''"
  shows "length (dot_to_empty (Dir dir)) < length dir"
proof -
  from upto_last_slash_cases [of dir] consider
    "upto_last_slash dir = []" | "upto_last_slash dir = ''/''"
    | v where "v \<noteq> []" "upto_last_slash dir = v @ ''/''"
    by (metis append_Nil)
  then show ?thesis
  proof cases
    case 1
    have "Clean [] = ''.''" by (simp add: Clean_def)
    with 1 assms show ?thesis by (simp add: Dir_def Split_def dot_to_empty_def)
  next
    case 2
    have "Clean ''/'' = ''/''" by code_simp
    with 2 upto_last_slash_hd [OF 2 assms(2)] show ?thesis
      by (simp add: Dir_def Split_def dot_to_empty_def)
  next
    case 3
    have "length (Clean (v @ ''/'')) \<le> length v"
      using 3(1) by (simp add: Clean_append_slash length_Clean)
    moreover have "length v < length dir"
      using length_upto_last_slash [of dir] 3(2) by simp
    ultimately show ?thesis
      using assms(1) by (simp add: Dir_def Split_def dot_to_empty_def 3(2))
  qed
qed

section \<open>The index is always built\<close>

text \<open>
  The walk up the ancestors shortens the directory in every round, so it reaches the root:
  \<open>populate\<close>, and with it \<open>newZipFS\<close>, returns on every input.
\<close>

lemma populate_total: "\<exists>d'. populate nm dir d = Some d'"
proof (induction dir arbitrary: d rule: measure_induct_rule [of length])
  case (less dir)
  show ?case
  proof (cases "dir = [] \<or> dir = ''.'' \<or> dir = ''/''")
    case True
    then show ?thesis
      by (subst populate.simps) (simp add: Let_def)
  next
    case False
    then have "length (dot_to_empty (Dir dir)) < length dir"
      by (simp add: length_Dir)
    from less.IH [OF this] obtain d' where
      "populate nm (dot_to_empty (Dir dir)) (dirs_append d (dir_key dir) (Base nm)) = Some d'"
      by blast
    with False show ?thesis
      by (subst populate.simps) (simp add: Let_def)
  qed
qed

lemma add_entry_total: "\<exists>z'. add_entry z f = Some z'"
proof (cases "IsDir f")
  case True
  then show ?thesis by (simp add: add_entry_def Let_def)
next
  case False
  obtain d where "populate (entry_name f) (dot_to_empty (Dir (entry_name f)))
                    (dirs (z\<lparr>files := (files z)(entry_name f \<mapsto> f)\<rparr>)) = Some d"
    using populate_total by blast
  with False show ?thesis by (simp add: add_entry_def Let_def)
qed

lemma add_entries_total: "\<exists>z'. add_entries z r = Some z'"
proof (induction r arbitrary: z)
  case Nil
  show ?case by simp
next
  case (Cons f r)
  obtain z1 where "add_entry z f = Some z1"
    using add_entry_total by blast
  with Cons show ?case by simp
qed

lemma newZipFS_total: "\<exists>z. newZipFS r = Some z"
  by (simp add: newZipFS_def add_entries_total)

section \<open>Directory handles: metadata\<close>

lemma Base_strip_slash:
  assumes "k \<noteq> ''/''"
  shows "Base (TrimSuffix k ''/'') = Base k"
proof (cases "HasSuffix k ''/''")
  case False
  then show ?thesis by (simp add: TrimSuffix_def)
next
  case True
  then obtain p where k: "k = p @ ''/''"
    by (metis HasSuffix_def append_take_drop_id)
  with assms have p: "p \<noteq> []" by auto
  have t: "TrimSuffix (p @ ''/'') ''/'' = p"
    by (simp add: TrimSuffix_def HasSuffix_def)
  have "strip_trailing_slashes (p @ ''/'') = strip_trailing_slashes p"
    by (simp add: strip_trailing_slashes_def)
  then show ?thesis
    using p by (simp add: k t Base_def)
qed

text \<open>
  C9. For every directory handle, \<open>Stat\<close> succeeds with a record whose directory flag is
  set, whose size is 0, whose modification time is the zero time and whose name is the base
  name of the handle's directory key; for the root key, the empty string, that name is
  \<open>"."\<close>.
\<close>

theorem Stat_directory:
  "isDir f \<Longrightarrow>
     snd (Stat f) = None \<and>
     FileInfo_IsDir (fst (Stat f)) \<and>
     FileInfo_Size (fst (Stat f)) = 0 \<and>
     FileInfo_ModTime (fst (Stat f)) = zero_time \<and>
     FileInfo_Name (fst (Stat f)) = Base (TrimSuffix (name f) ''/'') \<and>
     (name f \<noteq> ''/'' \<longrightarrow> FileInfo_Name (fst (Stat f)) = Base (name f)) \<and>
     (name f = [] \<longrightarrow> FileInfo_Name (fst (Stat f)) = ''.'')"
  by (simp add: Stat_def Base_strip_slash) (simp add: Base_def)

theorem Stat_directory_witness:
  "isDir (listing_handle ''x/y/'' []) \<and>
   snd (Stat (listing_handle ''x/y/'' [])) = None \<and>
   FileInfo_IsDir (fst (Stat (listing_handle ''x/y/'' []))) \<and>
   FileInfo_Size (fst (Stat (listing_handle ''x/y/'' []))) = 0 \<and>
   FileInfo_ModTime (fst (Stat (listing_handle ''x/y/'' []))) = zero_time \<and>
   FileInfo_Name (fst (Stat (listing_handle ''x/y/'' []))) = ''y'' \<and>
   FileInfo_Name (fst (Stat (listing_handle [] []))) = ''.''"
proof -
  have d: "isDir (listing_handle ''x/y/'' [])" "isDir (listing_handle [] [])"
    by (simp_all add: listing_handle_def)
  have n: "name (listing_handle ''x/y/'' []) = ''x/y/''" "name (listing_handle [] []) = []"
    by (simp_all add: listing_handle_def)
  have b: "Base (TrimSuffix ''x/y/'' ''/'') = ''y''" "Base (TrimSuffix [] ''/'') = ''.''"
    by code_simp+
  show ?thesis
    using d(1) Stat_directory [OF d(1)] Stat_directory [OF d(2)] by (simp add: n b)
qed

section \<open>Directory handles: reading and seeking\<close>

text \<open>
  C4, as the claim states it, fails: \<open>Read\<close> and \<open>Seek\<close> on a directory handle report
  \<open>io.EOF\<close>, not the invalid-operation error \<open>os.ErrInvalid\<close>, and what \<open>Read\<close> returns
  for a directory is what it returns for a file without content.
\<close>

theorem Read_Seek_directory_counterexample:
  "isDir (listing_handle ''a/'' [synth_dir ''b'']) \<and>
   fst (snd (Read 8 (listing_handle ''a/'' [synth_dir ''b'']))) \<noteq> Some ErrInvalid \<and>
   fst (snd (Seek 0 0 (listing_handle ''a/'' [synth_dir ''b'']))) \<noteq> Some ErrInvalid \<and>
   (fst (Read 8 (listing_handle ''a/'' [synth_dir ''b''])),
    fst (snd (Read 8 (listing_handle ''a/'' [synth_dir ''b''])))) =
   (fst (Read 8 \<lparr>isDir = False, name = ''e'', data = [], rdr = None, fi = None, entries = None\<rparr>),
    fst (snd (Read 8 \<lparr>isDir = False, name = ''e'', data = [], rdr = None, fi = None, entries = None\<rparr>)))"
  by (simp add: listing_handle_def Read_def Seek_def the_rdr_def NewReader_def Reader_Read_def)

text \<open>
  C4, amended. For every directory handle, \<open>Read\<close> returns no byte and \<open>Seek\<close> returns
  position 0, both together with \<open>io.EOF\<close>, which is not the invalid-operation error, and
  neither changes the handle.
\<close>

theorem Read_Seek_directory:
  "isDir f \<Longrightarrow>
     Read m f = ([], Some EOF, f) \<and> Seek offset whence f = (0, Some EOF, f) \<and>
     fst (snd (Read m f)) \<noteq> Some ErrInvalid \<and> fst (snd (Seek offset whence f)) \<noteq> Some ErrInvalid"
  by (simp add: Read_def Seek_def)

theorem Read_Seek_directory_witness:
  "isDir (listing_handle ''a/'' [synth_dir ''b'']) \<and>
   Read 8 (listing_handle ''a/'' [synth_dir ''b'']) =
     ([], Some EOF, listing_handle ''a/'' [synth_dir ''b'']) \<and>
   Seek 3 0 (listing_handle ''a/'' [synth_dir ''b'']) =
     (0, Some EOF, listing_handle ''a/'' [synth_dir ''b''])"
proof -
  have d: "isDir (listing_handle ''a/'' [synth_dir ''b''])"
    by (simp add: listing_handle_def)
  show ?thesis
    using d Read_Seek_directory [OF d, of 8 3 0] by simp
qed

section \<open>Directory handles: listing\<close>

lemma Readdir_all:
  assumes "isDir f" and "entries f = Some es" and "count \<le> 0 \<or> count \<ge> int (length es)"
  shows "Readdir count f = (es, None, f)"
  using assms by (auto simp: Readdir_def)

lemma Readdir_some:
  assumes "isDir f" and "entries f = Some es" and "0 < count" and "count < int (length es)"
  shows "Readdir count f = (take (nat count) es, None, f\<lparr>entries := Some (drop (nat count) es)\<rparr>)"
  using assms by (auto simp: Readdir_def)

text \<open>
  C2. The code at a directory handle with two entries: \<open>Readdir(0)\<close> returns both and
  leaves the handle as it was, so the next \<open>Readdir(0)\<close> returns both again, where the
  claim wants an empty sequence. The same happens with a count that reaches the number of
  entries: after \<open>Readdir(2)\<close>, \<open>Readdir(5)\<close> returns both entries once more.
\<close>

theorem Readdir_all_twice:
  "Readdir 0 (listing_handle [] [synth_dir ''a'', synth_dir ''b'']) =
     ([synth_dir ''a'', synth_dir ''b''], None, listing_handle [] [synth_dir ''a'', synth_dir ''b'']) \<and>
   fst (Readdir 0 (snd (snd (Readdir 0 (listing_handle [] [synth_dir ''a'', synth_dir ''b''])))))
     = [synth_dir ''a'', synth_dir ''b''] \<and>
   fst (Readdir 5 (snd (snd (Readdir 2 (listing_handle [] [synth_dir ''a'', synth_dir ''b''])))))
     = [synth_dir ''a'', synth_dir ''b'']"
  by (simp add: Readdir_def listing_handle_def)

text \<open>
  C3. On the code, paging with any \<open>k > 0\<close> through a directory handle that has at least
  one entry never comes to an end: the last page is returned again and again, so no number
  of calls exhausts the handle and there is no finite concatenation of pages.
\<close>

theorem readdir_pages_never_exhausted:
  "isDir f \<Longrightarrow> entries f = Some es \<Longrightarrow> es \<noteq> [] \<Longrightarrow> 0 < k \<Longrightarrow> readdir_pages n k f = None"
proof (induction n arbitrary: f es)
  case 0
  show ?case by simp
next
  case (Suc n)
  show ?case
  proof (cases "k \<ge> int (length es)")
    case True
    with Suc.prems have "Readdir k f = (es, None, f)"
      by (simp add: Readdir_all)
    moreover have "readdir_pages n k f = None"
      using Suc.IH [OF Suc.prems] .
    ultimately show ?thesis
      using Suc.prems(3) by simp
  next
    case False
    let ?f' = "f\<lparr>entries := Some (drop (nat k) es)\<rparr>"
    from False Suc.prems have r: "Readdir k f = (take (nat k) es, None, ?f')"
      by (simp add: Readdir_some)
    have "isDir ?f'" and "entries ?f' = Some (drop (nat k) es)"
      using Suc.prems(1) by simp_all
    moreover have "drop (nat k) es \<noteq> []"
      using False Suc.prems(4) by (simp add: le_nat_iff)
    ultimately have "readdir_pages n k ?f' = None"
      using Suc.IH Suc.prems(4) by blast
    moreover have "take (nat k) es \<noteq> []"
      using Suc.prems(3,4) by simp
    ultimately show ?thesis
      using r by simp
  qed
qed

theorem readdir_pages_never_exhausted_witness:
  "isDir (listing_handle [] [synth_dir ''a'']) \<and>
   entries (listing_handle [] [synth_dir ''a'']) = Some [synth_dir ''a''] \<and>
   [synth_dir ''a''] \<noteq> [] \<and> (0::int) < 1 \<and>
   readdir_pages 7 1 (listing_handle [] [synth_dir ''a'']) = None \<and>
   Readdir 0 (listing_handle [] [synth_dir ''a'']) =
     ([synth_dir ''a''], None, listing_handle [] [synth_dir ''a''])"
proof -
  have d: "isDir (listing_handle [] [synth_dir ''a''])"
    and e: "entries (listing_handle [] [synth_dir ''a'']) = Some [synth_dir ''a'']"
    by (simp_all add: listing_handle_def)
  have n: "[synth_dir ''a''] \<noteq> []" and k: "(0::int) < 1"
    by simp_all
  have "readdir_pages 7 1 (listing_handle [] [synth_dir ''a'']) = None"
    using readdir_pages_never_exhausted [OF d e n k] .
  then show ?thesis
    using d e by (simp add: Readdir_def)
qed

section \<open>Building the index\<close>

text \<open>
  C1. The code on the archive whose only member is the file \<open>x/y/z.txt\<close>: the three keys
  \<open>""\<close>, \<open>"x/"\<close> and \<open>"x/y/"\<close> are there, but each of them lists the base name of the
  file, \<open>z.txt\<close>; neither \<open>x\<close> nor \<open>y\<close> is registered anywhere, and the root lists a
  directory called \<open>z.txt\<close>.
\<close>

theorem newZipFS_single_nested_file:
  "map_option (\<lambda>z. (dirs z [], dirs z ''x/'', dirs z ''x/y/'', dirEntries z []))
     (newZipFS [member_file ''x/y/z.txt'' []]) =
   Some (Some [''z.txt''], Some [''z.txt''], Some [''z.txt''], [synth_dir ''z.txt''])"
  by code_simp

text \<open>
  C5. The code on the archive with the file \<open>a/b.txt\<close> followed by the explicit directory
  \<open>a/\<close>: after the file, \<open>"a/"\<close> lists \<open>b.txt\<close>; the directory member then replaces that
  list by the empty one.
\<close>

theorem newZipFS_directory_after_file:
  "map_option (\<lambda>z. dirs z ''a/'') (newZipFS [member_file ''a/b.txt'' []]) = Some (Some [''b.txt'']) \<and>
   map_option (\<lambda>z. dirs z ''a/'') (newZipFS [member_file ''a/b.txt'' [], member_dir ''a/'']) = Some (Some [])"
  by code_simp

section \<open>Opening a path\<close>

text \<open>
  The normalized name never ends with a slash, so the branch of \<open>Open\<close> for names with
  a trailing slash is never taken and \<open>TrimSuffix\<close> in the last branch changes nothing.
\<close>

lemma clean_name_append_slash: "clean_name (p @ ''/'') = clean_name p \<or> (p = [] \<and> clean_name (p @ ''/'') = [] \<and> clean_name p = ''.'')"
proof (cases "p = []")
  case True
  have "clean_name ''/'' = []" "clean_name [] = ''.''" by code_simp+
  with True show ?thesis by simp
next
  case False
  then show ?thesis by (simp add: clean_name_def Clean_append_slash)
qed

lemma Open_unfold:
  "Open z p =
     (if clean_name p = ''.'' \<or> clean_name p = [] then Inr (dir_handle z [])
      else case files z (clean_name p) of
             Some f \<Rightarrow>
               (case Contents f of
                  Inl err \<Rightarrow> Inl err
                | Inr buf \<Rightarrow>
                    Inr \<lparr>isDir = False, name = Base (clean_name p), data = buf, rdr = None,
                         fi = Some (HeaderFileInfo f), entries = None\<rparr>)
           | None \<Rightarrow>
               if dirs z (clean_name p @ ''/'') \<noteq> None
               then Inr (dir_handle z (clean_name p @ ''/''))
               else Inl ErrNotExist)"
proof -
  from clean_name_no_trailing_slash [of p]
  have "clean_name p = [] \<or> (\<not> HasSuffix (clean_name p) ''/'' \<and> TrimSuffix (clean_name p) ''/'' = clean_name p)"
    by (auto simp: TrimSuffix_def)
  then show ?thesis
    by (auto simp: Open_def Let_def split: option.splits sum.splits)
qed

lemma Open_cong_name: "clean_name a = clean_name b \<Longrightarrow> Open z a = Open z b"
  unfolding Open_def by simp

text \<open>
  C6, as the claim states it, fails twice. The root path of the archive without members is a
  key of neither mapping, yet \<open>Open\<close> returns a directory handle for it, not the not-found
  error. And a path that is a key of \<open>files\<close> gives no file handle when the content of the
  member cannot be read: \<open>Open\<close> returns that error.
\<close>

theorem Open_classification_counterexample:
  "newZipFS [] = Some empty_index \<and>
   files empty_index (clean_name ''/'') = None \<and>
   dirs empty_index (clean_name ''/'' @ ''/'') = None \<and>
   Open empty_index ''/'' \<noteq> Inl ErrNotExist \<and>
   (case newZipFS [member_broken ''c''] of
      None \<Rightarrow> False
    | Some z \<Rightarrow>
        files z (clean_name ''c'') = Some (member_broken ''c'') \<and>
        Open z ''c'' = Inl (ErrArchive ''zip: checksum error''))"
proof -
  have a: "newZipFS [] = Some empty_index"
    by (simp add: newZipFS_def empty_index_def)
  have b: "files empty_index (clean_name ''/'') = None \<and>
           dirs empty_index (clean_name ''/'' @ ''/'') = None \<and>
           Open empty_index ''/'' \<noteq> Inl ErrNotExist \<and>
           (case newZipFS [member_broken ''c''] of
              None \<Rightarrow> False
            | Some z \<Rightarrow>
                files z (clean_name ''c'') = Some (member_broken ''c'') \<and>
                Open z ''c'' = Inl (ErrArchive ''zip: checksum error''))"
    by code_simp
  from a b show ?thesis by (rule conjI)
qed

text \<open>
  C6, amended. A path whose normalized form is the root (empty or \<open>"."\<close>) always opens as
  the root directory. For every other path: when the normalized form is a key of neither
  \<open>files\<close> nor, with a slash appended, \<open>dirs\<close>, \<open>Open\<close> returns \<open>os.ErrNotExist\<close>; when it
  is a key of \<open>files\<close>, \<open>Open\<close> returns a file handle holding the content of the member,
  or the error that reading the content reported; otherwise, when it is a key of \<open>dirs\<close>
  with a slash appended, \<open>Open\<close> returns a directory handle for that key. \<open>Open\<close> is a
  total function: there is no input on which it panics.
\<close>

theorem Open_classification:
  "(clean_name p = ''.'' \<or> clean_name p = [] \<longrightarrow> Open z p = Inr (dir_handle z [])) \<and>
   (clean_name p \<noteq> ''.'' \<and> clean_name p \<noteq> [] \<longrightarrow>
      (files z (clean_name p) = None \<and> dirs z (clean_name p @ ''/'') = None \<longrightarrow>
         Open z p = Inl ErrNotExist) \<and>
      (\<forall>f buf. files z (clean_name p) = Some f \<and> Contents f = Inr buf \<longrightarrow>
         Open z p = Inr \<lparr>isDir = False, name = Base (clean_name p), data = buf, rdr = None,
                         fi = Some (HeaderFileInfo f), entries = None\<rparr>) \<and>
      (\<forall>f err. files z (clean_name p) = Some f \<and> Contents f = Inl err \<longrightarrow> Open z p = Inl err) \<and>
      (files z (clean_name p) = None \<and> dirs z (clean_name p @ ''/'') \<noteq> None \<longrightarrow>
         Open z p = Inr (dir_handle z (clean_name p @ ''/''))))"
  by (auto simp: Open_unfold)

theorem Open_classification_witness:
  "case newZipFS [member_file ''a/b.txt'' [1, 2], member_broken ''c''] of
     None \<Rightarrow> False
   | Some z \<Rightarrow>
       Open z ''a/c.txt'' = Inl ErrNotExist \<and>
       Open z ''/a/./b.txt'' =
         Inr \<lparr>isDir = False, name = ''b.txt'', data = [1, 2], rdr = None,
              fi = Some (HeaderFileInfo (member_file ''a/b.txt'' [1, 2])), entries = None\<rparr> \<and>
       Open z ''c'' = Inl (ErrArchive ''zip: checksum error'') \<and>
       Open z ''a'' = Inr (dir_handle z ''a/'') \<and>
       Open z ''.'' = Inr (dir_handle z [])"
proof -
  have n: "clean_name ''a/c.txt'' = ''a/c.txt''" "clean_name ''/a/./b.txt'' = ''a/b.txt''"
    "clean_name ''c'' = ''c''" "clean_name ''a'' = ''a''" "clean_name ''.'' = ''.''"
    "Base ''a/b.txt'' = ''b.txt''"
    by code_simp+
  have "case newZipFS [member_file ''a/b.txt'' [1, 2], member_broken ''c''] of
          None \<Rightarrow> False
        | Some z \<Rightarrow>
            files z ''a/c.txt'' = None \<and> dirs z ''a/c.txt/'' = None \<and>
            files z ''a/b.txt'' = Some (member_file ''a/b.txt'' [1, 2]) \<and>
            files z ''c'' = Some (member_broken ''c'') \<and>
            files z ''a'' = None \<and> dirs z ''a/'' = Some [''b.txt'']"
    by code_simp
  then obtain z where z: "newZipFS [member_file ''a/b.txt'' [1, 2], member_broken ''c''] = Some z"
    and f: "files z ''a/c.txt'' = None" "dirs z ''a/c.txt/'' = None"
      "files z ''a/b.txt'' = Some (member_file ''a/b.txt'' [1, 2])"
      "files z ''c'' = Some (member_broken ''c'')"
      "files z ''a'' = None" "dirs z ''a/'' = Some [''b.txt'']"
    by (auto split: option.splits)
  have c: "Contents (member_file ''a/b.txt'' [1, 2]) = Inr [1, 2]"
    "Contents (member_broken ''c'') = Inl (ErrArchive ''zip: checksum error'')"
    by (simp_all add: member_file_def member_broken_def)
  show ?thesis
    using Open_classification [of "''a/c.txt''" z] Open_classification [of "''/a/./b.txt''" z]
      Open_classification [of "''c''" z] Open_classification [of "''a''" z]
      Open_classification [of "''.''" z]
    by (simp add: z n f c)
qed

text \<open>
  C8. For every index and every path, \<open>Open\<close> of the path with a slash appended is
  \<open>Open\<close> of the path: the same error, or a handle with the same classification, key,
  content and listing. In particular this holds for the keys of \<open>dirs\<close>.
\<close>

theorem Open_trailing_slash: "Open z (p @ ''/'') = Open z p"
proof (cases "clean_name (p @ ''/'') = clean_name p")
  case True
  then show ?thesis by (rule Open_cong_name)
next
  case False
  with clean_name_append_slash [of p]
  have "clean_name (p @ ''/'') = []" and "clean_name p = ''.''" by blast+
  then show ?thesis by (simp add: Open_unfold)
qed

theorem Open_trailing_slash_witness:
  "case newZipFS [member_file ''a/b.txt'' [1, 2]] of
     None \<Rightarrow> False
   | Some z \<Rightarrow>
       Open z ''a//'' = Open z ''a/'' \<and> Open z ''a/'' = Open z ''a'' \<and>
       Open z ''a'' = Inr (listing_handle ''a/'' [HeaderFileInfo (member_file ''a/b.txt'' [1, 2])]) \<and>
       Open z ''a/b.txt/'' = Open z ''a/b.txt'' \<and> Open z ''/'' = Open z []"
proof -
  have "case newZipFS [member_file ''a/b.txt'' [1, 2]] of
          None \<Rightarrow> False
        | Some z \<Rightarrow>
            Open z ''a'' = Inr (listing_handle ''a/'' [HeaderFileInfo (member_file ''a/b.txt'' [1, 2])])"
    by code_simp
  then obtain z where z: "newZipFS [member_file ''a/b.txt'' [1, 2]] = Some z"
    and o: "Open z ''a'' = Inr (listing_handle ''a/'' [HeaderFileInfo (member_file ''a/b.txt'' [1, 2])])"
    by (auto split: option.splits)
  show ?thesis
    using Open_trailing_slash [of z "''a/''"] Open_trailing_slash [of z "''a''"]
      Open_trailing_slash [of z "''a/b.txt''"] Open_trailing_slash [of z "[]"]
    by (simp add: z o)
qed

section \<open>File handles: seeking and reading\<close>





section \<open>Opening the root\<close>

text \<open>
  C10. When the normalized path is empty or \<open>"."\<close>, \<open>Open\<close> succeeds with a directory
  handle for the root key, whatever the index holds. When the index has no root key, as the
  index of the archive without members, the handle lists nothing.
\<close>

theorem Open_root:
  "clean_name p = ''.'' \<or> clean_name p = [] \<Longrightarrow>
     Open z p = Inr (dir_handle z []) \<and>
     isDir (dir_handle z []) \<and> name (dir_handle z []) = [] \<and>
     (dirs z [] = None \<longrightarrow>
        entries (dir_handle z []) = Some [] \<and>
        Readdir 0 (dir_handle z []) = ([], None, dir_handle z [])) \<and>
     newZipFS [] = Some empty_index \<and> dirs empty_index [] = None"
  by (auto simp: Open_def dir_handle_def dirEntries_def Readdir_def newZipFS_def empty_index_def)

theorem Open_root_witness:
  "clean_name ''/'' = [] \<and> clean_name [] = ''.'' \<and>
   Open empty_index ''/'' = Inr (dir_handle empty_index []) \<and>
   Open empty_index [] = Inr (dir_handle empty_index []) \<and>
   entries (dir_handle empty_index []) = Some [] \<and>
   Readdir 0 (dir_handle empty_index []) = ([], None, dir_handle empty_index [])"
proof -
  have a: "clean_name ''/'' = []" and b: "clean_name [] = ''.''"
    by code_simp+
  have e: "dirs empty_index [] = None"
    by (simp add: empty_index_def)
  show ?thesis
    using Open_root [of "''/''" empty_index] Open_root [of "[]" empty_index] a b e by simp
qed

end
